theory Spec2Isabelle
  imports Main "HOL-Library.Word" "HOL-Library.Multiset"
begin

unbundle bit_operations_syntax

section \<open>Errors and text formatting\<close>

text \<open>
  A Go panic is a value: \<open>Panic msg\<close> for an explicit \<^verbatim>\<open>panic(msg)\<close>, \<open>NilDereference\<close>
  for reading a field through a nil pointer and \<open>IndexOutOfRange\<close> for a slice index
  outside the slice. Every function that can panic returns \<open>error + 'a\<close>.
\<close>

datatype error = Panic string | NilDereference | IndexOutOfRange

text \<open>The verb \<^verbatim>\<open>%d\<close> of \<^verbatim>\<open>fmt.Sprintf\<close>: decimal digits, with a minus sign for a
  negative number.\<close>

definition digit_char :: "nat \<Rightarrow> char" where
  "digit_char d = ''0123456789'' ! d"

function fmt_nat :: "nat \<Rightarrow> string" where
  "fmt_nat n = (if n < 10 then [digit_char n] else fmt_nat (n div 10) @ [digit_char (n mod 10)])"
  by pat_completeness auto
termination
  by (relation "measure id") auto

definition fmt_int :: "int \<Rightarrow> string" where
  "fmt_int i = (if i < 0 then CHR ''-'' # fmt_nat (nat (- i)) else fmt_nat (nat i))"

section \<open>Registers\<close>

text \<open>\<^verbatim>\<open>type Reg uint64\<close>; Go's \<^verbatim>\<open>int\<close> is the 64-bit signed integer of the targets
  this compiler supports, read with \<open>sint\<close>. The methods \<^verbatim>\<open>zero\<close> and \<^verbatim>\<open>normalize\<close> are
  \<open>zero_reg\<close> and \<open>normalize_reg\<close> here, since HOL has constants of their names.\<close>

type_synonym Reg = "64 word"
type_synonym go_int = "64 word"
type_synonym int64 = "64 word"

definition B_ptr :: nat where "B_ptr = 63"
definition B_kind :: nat where "B_kind = 59"

definition M_ptr :: "64 word" where "M_ptr = 1"
definition M_kind :: "64 word" where "M_kind = 0x0f"

definition R_ptr :: "64 word" where "R_ptr = push_bit B_ptr M_ptr"
definition R_kind :: "64 word" where "R_kind = push_bit B_kind M_kind"
definition R_index :: "64 word" where "R_index = push_bit B_kind 1 - 1"

definition K_max :: "64 word" where "K_max = 7"
definition K_arch :: "64 word" where "K_arch = 12"
definition K_zero :: "64 word" where "K_zero = 13"
definition K_temp :: "64 word" where "K_temp = 14"
definition K_norm :: "64 word" where "K_norm = 15"

definition Rz :: Reg where "Rz = push_bit B_ptr 0 OR push_bit B_kind K_zero"
definition Pn :: Reg where "Pn = push_bit B_ptr 1 OR push_bit B_kind K_zero"
definition Tr :: Reg where "Tr = push_bit B_ptr 0 OR push_bit B_kind K_temp"
definition Pr :: Reg where "Pr = push_bit B_ptr 1 OR push_bit B_kind K_temp"

definition mkreg :: "64 word \<Rightarrow> 64 word \<Rightarrow> error + Reg" where
  "mkreg ptr kind =
     (if kind > K_max then Inl (Panic (''invalid register kind: '' @ fmt_nat (unat kind)))
      else Inr (push_bit B_ptr (ptr AND M_ptr) OR push_bit B_kind (kind AND M_kind)))"

definition Ptr :: "Reg \<Rightarrow> bool" where
  "Ptr self = (self AND R_ptr \<noteq> 0)"

definition Index :: "Reg \<Rightarrow> go_int" where
  "Index self = self AND R_index"

definition kind :: "Reg \<Rightarrow> 8 word" where
  "kind self = ucast (drop_bit B_kind (self AND R_kind))"

definition zero_reg :: "Reg \<Rightarrow> Reg" where
  "zero_reg self = (if Ptr self then Pn else Rz)"

definition rename :: "Reg \<Rightarrow> go_int \<Rightarrow> Reg" where
  "rename self i = (self AND (R_ptr OR R_kind)) OR (i AND R_index)"

definition normalize_reg :: "Reg \<Rightarrow> go_int \<Rightarrow> Reg" where
  "normalize_reg self i = (self AND R_ptr) OR push_bit B_kind K_norm OR (i AND R_index)"


text \<open>
  \<^verbatim>\<open>Reg.String\<close>. The table \<^verbatim>\<open>ArchRegs\<close> and the name map \<^verbatim>\<open>ArchRegNames\<close> are declared in an
  architecture file elsewhere in the repository, so they are the parameters \<open>regs\<close> and
  \<open>names\<close>. The Go \<^verbatim>\<open>switch\<close> lists \<^verbatim>\<open>default\<close> first; its cases are distinct constants, so
  the order of the tests does not matter.
\<close>

definition Reg_String :: "'a list \<Rightarrow> ('a \<Rightarrow> string) \<Rightarrow> Reg \<Rightarrow> error + string" where
  "Reg_String regs names self =
     (if kind self = ucast K_arch then
        (let i = Index self in
         if sint i \<ge> int (length regs)
         then Inl (Panic (''invalid arch-specific register index: '' @ fmt_int (sint i)))
         else Inr (''%'' @ names (regs ! nat (sint i))))
      else if kind self = ucast K_zero then
        (if Ptr self then Inr ''nil'' else Inr ''$0'')
      else if kind self = ucast K_temp then
        (if Ptr self then Inr (''%tp'' @ fmt_int (sint (Index self)))
         else Inr (''%tr'' @ fmt_int (sint (Index self))))
      else if kind self = ucast K_norm then
        (if Ptr self then Inr (''%p'' @ fmt_int (sint (Index self)))
         else Inr (''%r'' @ fmt_int (sint (Index self))))
      else
        (if Ptr self
         then Inr (''%p'' @ fmt_nat (unat (kind self)) @ ''.'' @ fmt_int (sint (Index self)))
         else Inr (''%r'' @ fmt_nat (unat (kind self)) @ ''.'' @ fmt_int (sint (Index self)))))"

text \<open>
  A register that reaches \<^verbatim>\<open>fmt.Sprintf\<close> as an operand of \<^verbatim>\<open>%s\<close> is rendered by the \<^verbatim>\<open>fmt\<close>
  package, which calls \<^verbatim>\<open>String\<close> and recovers a panic of that method: the panic becomes
  text in the output instead of unwinding the caller.
\<close>

definition error_text :: "error \<Rightarrow> string" where
  "error_text e = (case e of
       Panic msg \<Rightarrow> msg
     | NilDereference \<Rightarrow> ''runtime error: invalid memory address or nil pointer dereference''
     | IndexOutOfRange \<Rightarrow> ''runtime error: index out of range'')"

definition fmt_s :: "error + string \<Rightarrow> string" where
  "fmt_s r = (case r of
       Inr s \<Rightarrow> s
     | Inl e \<Rightarrow> ''%!s(PANIC=String method: '' @ error_text e @ '')'')"

text \<open>\<^verbatim>\<open>strings.Join\<close>.\<close>

fun strings_Join :: "string list \<Rightarrow> string \<Rightarrow> string" where
  "strings_Join [] sep = []"
| "strings_Join [x] sep = x"
| "strings_Join (x # y # ys) sep = x @ sep @ strings_Join (y # ys) sep"

section \<open>The library sort\<close>

text \<open>
  \<^verbatim>\<open>sort.Sort\<close> and \<^verbatim>\<open>sort.Slice\<close> belong to the Go library, not to this repository. They
  are modelled by the library's \<^verbatim>\<open>insertionSort(data, a, b)\<close>, the routine both run on a
  range of at most twelve elements, written over the same interface: \<open>lss s i j\<close> is
  \<^verbatim>\<open>Less(i, j)\<close> and \<open>swp s i j\<close> is \<^verbatim>\<open>Swap(i, j)\<close> on the data \<open>s\<close>. On longer ranges the
  library runs a quicksort variant, and it promises no stability. The properties below use
  only that the outcome is the permutation ordered by \<^verbatim>\<open>Less\<close>; lemma \<open>sorted_perm_unique\<close>
  shows that with pairwise distinct keys there is exactly one such list.
\<close>

fun insertion_inner ::
  "('s \<Rightarrow> nat \<Rightarrow> nat \<Rightarrow> bool) \<Rightarrow> ('s \<Rightarrow> nat \<Rightarrow> nat \<Rightarrow> 's) \<Rightarrow> nat \<Rightarrow> 's \<Rightarrow> nat \<Rightarrow> 's" where
  "insertion_inner lss swp a s j =
     (if a < j \<and> lss s j (j - 1)
      then insertion_inner lss swp a (swp s j (j - 1)) (j - 1)
      else s)"

declare insertion_inner.simps [simp del]

definition insertionSort ::
  "('s \<Rightarrow> nat \<Rightarrow> nat \<Rightarrow> bool) \<Rightarrow> ('s \<Rightarrow> nat \<Rightarrow> nat \<Rightarrow> 's) \<Rightarrow> 's \<Rightarrow> nat \<Rightarrow> nat \<Rightarrow> 's" where
  "insertionSort lss swp s a b =
     fold (\<lambda>i s. insertion_inner lss swp a s i) [a + 1 ..< b] s"

text \<open>\<^verbatim>\<open>sort.Sort(data)\<close> sorts the range from 0 to \<^verbatim>\<open>data.Len()\<close>.\<close>

definition sort_Sort ::
  "('s \<Rightarrow> nat) \<Rightarrow> ('s \<Rightarrow> nat \<Rightarrow> nat \<Rightarrow> bool) \<Rightarrow> ('s \<Rightarrow> nat \<Rightarrow> nat \<Rightarrow> 's) \<Rightarrow> 's \<Rightarrow> 's" where
  "sort_Sort len lss swp data = insertionSort lss swp data 0 (len data)"

text \<open>
  \<^verbatim>\<open>sort.Slice(t[:n], less)\<close>: the slice \<^verbatim>\<open>t[:n]\<close> is a window on the array of \<open>t\<close>, so the
  swaps act on the first \<open>n\<close> cells of \<open>t\<close>, and the closure \<open>lss\<close> reads \<open>t\<close> itself.
\<close>

definition slice_swap :: "'a list \<Rightarrow> nat \<Rightarrow> nat \<Rightarrow> 'a list" where
  "slice_swap t i j = t[i := t ! j, j := t ! i]"

definition sort_Slice :: "nat \<Rightarrow> ('a list \<Rightarrow> nat \<Rightarrow> nat \<Rightarrow> bool) \<Rightarrow> 'a list \<Rightarrow> 'a list" where
  "sort_Slice n lss t = insertionSort lss slice_swap t 0 n"

section \<open>Blocks and register locations\<close>

text \<open>
  Modelled from the spec: \<^verbatim>\<open>BasicBlock\<close> is declared elsewhere in the repository; the code
  here reads only its integer identifier \<^verbatim>\<open>Id\<close>. A \<^verbatim>\<open>*BasicBlock\<close> is an address or nil
  (\<open>None\<close>), and the blocks live in a heap \<open>addr \<Rightarrow> BasicBlock\<close>; two different addresses are
  two different map keys even when the blocks they hold carry the same identifier.
\<close>

type_synonym addr = nat

record BasicBlock =
  blk_Id :: go_int

type_synonym bbptr = "addr option"
type_synonym bbheap = "addr \<Rightarrow> BasicBlock"

definition block_Id :: "bbheap \<Rightarrow> bbptr \<Rightarrow> error + go_int" where
  "block_Id h p = (case p of None \<Rightarrow> Inl NilDereference | Some a \<Rightarrow> Inr (blk_Id (h a)))"

text \<open>
  A \<^verbatim>\<open>*Reg\<close> is a location: a register cell of its own, the field of the node at an
  address (\<^verbatim>\<open>&self.R\<close> is \<open>RegField self ''R''\<close>), or an element of a slice field of a node
  (\<^verbatim>\<open>&self.In[i]\<close>).
\<close>

datatype regptr = RegCell addr | RegField addr string | RegIndex addr string nat

section \<open>Phi nodes\<close>

text \<open>
  A Go map is an association list with distinct keys; the order of the list is the order
  in which \<^verbatim>\<open>range\<close> visits the entries, which Go leaves unspecified.

  The sorter works on two parallel slices. The sort calls \<^verbatim>\<open>Less\<close> and \<^verbatim>\<open>Swap\<close> only with
  positions below \<^verbatim>\<open>Len()\<close>, where the Go index expressions cannot panic.
\<close>

record PhiSorter =
  ps_k :: "go_int list"
  ps_v :: "regptr list"

definition PhiSorter_Len :: "PhiSorter \<Rightarrow> nat" where
  "PhiSorter_Len self = length (ps_k self)"

definition PhiSorter_Swap :: "PhiSorter \<Rightarrow> nat \<Rightarrow> nat \<Rightarrow> PhiSorter" where
  "PhiSorter_Swap self i j =
     \<lparr>ps_k = (ps_k self)[i := ps_k self ! j, j := ps_k self ! i],
      ps_v = (ps_v self)[i := ps_v self ! j, j := ps_v self ! i]\<rparr>"

definition PhiSorter_Less :: "PhiSorter \<Rightarrow> nat \<Rightarrow> nat \<Rightarrow> bool" where
  "PhiSorter_Less self i j = (sint (ps_k self ! i) < sint (ps_k self ! j))"

record IrPhi =
  phi_R :: Reg
  phi_V :: "(bbptr \<times> regptr) list"

text \<open>The loop of \<^verbatim>\<open>IrPhi.Usages\<close> that dumps the map into the slices \<open>k\<close> and \<open>v\<close>; reading
  \<^verbatim>\<open>b.Id\<close> through a nil key panics.\<close>

fun phi_dump ::
  "bbheap \<Rightarrow> (bbptr \<times> regptr) list \<Rightarrow> go_int list \<Rightarrow> regptr list
     \<Rightarrow> error + (go_int list \<times> regptr list)" where
  "phi_dump h [] k v = Inr (k, v)"
| "phi_dump h ((b, r) # rest) k v =
     (case block_Id h b of
        Inl e \<Rightarrow> Inl e
      | Inr d \<Rightarrow> phi_dump h rest (k @ [d]) (v @ [r]))"

definition IrPhi_Usages :: "bbheap \<Rightarrow> IrPhi \<Rightarrow> error + regptr list" where
  "IrPhi_Usages h self =
     (case phi_dump h (phi_V self) [] [] of
        Inl e \<Rightarrow> Inl e
      | Inr (k, v) \<Rightarrow>
          Inr (ps_v (sort_Sort PhiSorter_Len PhiSorter_Less PhiSorter_Swap
                       \<lparr>ps_k = k, ps_v = v\<rparr>)))"

definition IrPhi_Definations :: "addr \<Rightarrow> regptr list" where
  "IrPhi_Definations self = [RegField self ''R'']"

section \<open>Switch terminators and their successors\<close>

record SwitchTarget =
  st_i :: int64
  st_b :: bbptr

text \<open>The iterator position is a Go \<^verbatim>\<open>int\<close> that starts at \<open>-1\<close> and is only ever
  incremented up to the length of the slice, so it is an \<open>int\<close> here.\<close>

record SwitchSuccessors =
  it_i :: int
  it_t :: "SwitchTarget list"

definition SwitchSuccessors_Next :: "SwitchSuccessors \<Rightarrow> bool \<times> SwitchSuccessors" where
  "SwitchSuccessors_Next self =
     (let self' = self\<lparr>it_i := it_i self + 1\<rparr>
      in (it_i self' < int (length (it_t self')), self'))"

definition SwitchSuccessors_Block :: "SwitchSuccessors \<Rightarrow> error + bbptr" where
  "SwitchSuccessors_Block self =
     (if it_i self \<ge> int (length (it_t self)) then Inr None
      else if it_i self < 0 then Inl IndexOutOfRange
      else Inr (st_b (it_t self ! nat (it_i self))))"

definition SwitchSuccessors_Value :: "SwitchSuccessors \<Rightarrow> error + (int64 \<times> bool)" where
  "SwitchSuccessors_Value self =
     (if it_i self \<ge> int (length (it_t self)) - 1 then Inr (0, False)
      else if it_i self < 0 then Inl IndexOutOfRange
      else Inr (st_i (it_t self ! nat (it_i self)), True))"

record IrSwitch =
  sw_V :: Reg
  sw_Ln :: bbptr
  sw_Br :: "(int64 \<times> bbptr) list"

definition SwitchTarget_less :: "SwitchTarget list \<Rightarrow> nat \<Rightarrow> nat \<Rightarrow> bool" where
  "SwitchTarget_less t i j = (sint (st_i (t ! i)) < sint (st_i (t ! j)))"

definition IrSwitch_iter :: "IrSwitch \<Rightarrow> SwitchSuccessors" where
  "IrSwitch_iter self =
     (let n = length (sw_Br self);
          t = map (\<lambda>(i, b). \<lparr>st_i = i, st_b = b\<rparr>) (sw_Br self);
          t = t @ [\<lparr>st_i = 0, st_b = sw_Ln self\<rparr>];
          t = sort_Slice n SwitchTarget_less t
      in \<lparr>it_i = - 1, it_t = t\<rparr>)"

definition IrSwitch_Successors :: "IrSwitch \<Rightarrow> SwitchSuccessors" where
  "IrSwitch_Successors self = IrSwitch_iter self"

text \<open>
  The consumer's loop over a successor iterator,
  \<^verbatim>\<open>for it.Next() { ... it.Block() ... it.Value() ... }\<close>, collecting the edges it sees.
\<close>

function successor_edges :: "SwitchSuccessors \<Rightarrow> error + (bbptr \<times> int64 \<times> bool) list" where
  "successor_edges it =
     (if fst (SwitchSuccessors_Next it) then
        (case SwitchSuccessors_Block (snd (SwitchSuccessors_Next it)) of
           Inl e \<Rightarrow> Inl e
         | Inr b \<Rightarrow>
            (case SwitchSuccessors_Value (snd (SwitchSuccessors_Next it)) of
               Inl e \<Rightarrow> Inl e
             | Inr v \<Rightarrow>
                (case successor_edges (snd (SwitchSuccessors_Next it)) of
                   Inl e \<Rightarrow> Inl e
                 | Inr rest \<Rightarrow> Inr ((b, v) # rest))))
      else Inr [])"
  by pat_completeness auto
termination
  by (relation "measure (\<lambda>it. nat (int (length (it_t it)) - it_i it))")
     (auto simp add: SwitchSuccessors_Next_def Let_def)

declare successor_edges.simps [simp del]

text \<open>The two line formats of \<^verbatim>\<open>IrSwitch.String\<close>: \<^verbatim>\<open>"  %d => bb_%d,"\<close> for a branch and
  \<^verbatim>\<open>"  _ => bb_%d,"\<close> for the default.\<close>

definition switch_case_line :: "int64 \<Rightarrow> go_int \<Rightarrow> string" where
  "switch_case_line i d = ''  '' @ fmt_int (sint i) @ '' => bb_'' @ fmt_int (sint d) @ '',''"

definition switch_default_line :: "go_int \<Rightarrow> string" where
  "switch_default_line d = ''  _ => bb_'' @ fmt_int (sint d) @ '',''"

text \<open>The loop of \<^verbatim>\<open>IrSwitch.String\<close> over the sorted branches; \<^verbatim>\<open>v.b.Id\<close> panics on a nil
  branch target.\<close>

fun switch_cases :: "bbheap \<Rightarrow> SwitchTarget list \<Rightarrow> string list \<Rightarrow> error + string list" where
  "switch_cases h [] r = Inr r"
| "switch_cases h (v # vs) r =
     (case block_Id h (st_b v) of
        Inl e \<Rightarrow> Inl e
      | Inr d \<Rightarrow> switch_cases h vs (r @ [switch_case_line (st_i v) d]))"

definition IrSwitch_String ::
  "'a list \<Rightarrow> ('a \<Rightarrow> string) \<Rightarrow> bbheap \<Rightarrow> IrSwitch \<Rightarrow> error + string" where
  "IrSwitch_String regs names h self =
     (let n = length (sw_Br self) in
      if n = 0 then
        (case block_Id h (sw_Ln self) of
           Inl e \<Rightarrow> Inl e
         | Inr d \<Rightarrow> Inr (''goto bb_'' @ fmt_int (sint d)))
      else
        (case switch_cases h (take n (it_t (IrSwitch_iter self))) [] of
           Inl e \<Rightarrow> Inl e
         | Inr r \<Rightarrow>
            (case block_Id h (sw_Ln self) of
               Inl e \<Rightarrow> Inl e
             | Inr d \<Rightarrow>
                Inr (''switch '' @ fmt_s (Reg_String regs names (sw_V self)) @ '' {'' @ [CHR 0x0A]
                     @ strings_Join (r @ [switch_default_line d]) [CHR 0x0A]
                     @ [CHR 0x0A] @ ''}''))))"

section \<open>Binary expressions and copies\<close>

datatype IrBinaryOp =
  IrOpAdd | IrOpSub | IrOpMul | IrOpAnd | IrOpOr | IrOpXor | IrOpShr
| IrCmpEq | IrCmpNe | IrCmpLt | IrCmpLtu | IrCmpGeu

record IrBinaryExpr =
  bin_R :: Reg
  bin_X :: Reg
  bin_Y :: Reg
  bin_Op :: IrBinaryOp

text \<open>\<^verbatim>\<open>&IrBinaryExpr { ... }\<close> allocates: the heap of binary expressions is a list, an
  address is a position in it, and a new object goes to the end.\<close>

definition new_object :: "'a \<Rightarrow> 'a list \<Rightarrow> addr \<times> 'a list" where
  "new_object x heap = (length heap, heap @ [x])"

definition IrCopy :: "Reg \<Rightarrow> Reg \<Rightarrow> IrBinaryExpr list \<Rightarrow> addr \<times> IrBinaryExpr list" where
  "IrCopy r v heap = new_object \<lparr>bin_R = r, bin_X = v, bin_Y = Rz, bin_Op = IrOpAdd\<rparr> heap"

definition IrBinaryExpr_Usages :: "addr \<Rightarrow> regptr list" where
  "IrBinaryExpr_Usages self = [RegField self ''X'', RegField self ''Y'']"

definition IrBinaryExpr_Definations :: "addr \<Rightarrow> regptr list" where
  "IrBinaryExpr_Definations self = [RegField self ''R'']"

text \<open>Reading a register through a location inside a binary expression.\<close>

definition IrBinaryExpr_load :: "IrBinaryExpr list \<Rightarrow> regptr \<Rightarrow> Reg option" where
  "IrBinaryExpr_load heap p =
     (case p of
        RegField a f \<Rightarrow>
          (if a < length heap then
             (if f = ''R'' then Some (bin_R (heap ! a))
              else if f = ''X'' then Some (bin_X (heap ! a))
              else if f = ''Y'' then Some (bin_Y (heap ! a))
              else None)
           else None)
      | _ \<Rightarrow> None)"

section \<open>Calls\<close>

text \<open>
  Modelled from the spec: \<^verbatim>\<open>hir.CallHandle\<close> is declared in another package. The
  spec names three call kinds: native (\<^verbatim>\<open>CCall\<close>), managed (\<^verbatim>\<open>GCall\<close>) and interface
  dispatch (\<^verbatim>\<open>ICall\<close>) through a slot number. The code keeps a \<^verbatim>\<open>default\<close> branch for any
  other value of the type, which is \<open>OtherCall\<close> here. The text of \<^verbatim>\<open>Fn.String()\<close> is the
  parameter \<open>fnstr\<close> of \<open>IrCall_String\<close>.
\<close>

datatype CallType = CCall | GCall | ICall | OtherCall

record CallHandle =
  ch_Type :: CallType
  ch_Slot :: go_int

record IrReceiver =
  rx_T :: Reg
  rx_V :: Reg

text \<open>\<^verbatim>\<open>Fn\<close> and \<^verbatim>\<open>Rx\<close> are pointers: \<open>None\<close> is nil. The receiver is an object of its own at
  an address, held in the heap \<open>rxs\<close>.\<close>

record IrCall =
  call_Fn :: "CallHandle option"
  call_Rx :: "addr option"
  call_In :: "Reg list"
  call_Out :: "Reg list"

text \<open>The loops \<^verbatim>\<open>for _, r := range self.In { in = append(in, r.String()) }\<close>: a direct call
  of \<^verbatim>\<open>String\<close>, whose panic is not recovered.\<close>

fun regs_String :: "'a list \<Rightarrow> ('a \<Rightarrow> string) \<Rightarrow> Reg list \<Rightarrow> error + string list" where
  "regs_String regs names [] = Inr []"
| "regs_String regs names (r # rs) =
     (case Reg_String regs names r of
        Inl e \<Rightarrow> Inl e
      | Inr s \<Rightarrow>
         (case regs_String regs names rs of
            Inl e \<Rightarrow> Inl e
          | Inr ss \<Rightarrow> Inr (s # ss)))"

definition IrCall_String ::
  "'a list \<Rightarrow> ('a \<Rightarrow> string) \<Rightarrow> (CallHandle \<Rightarrow> string) \<Rightarrow> (addr \<Rightarrow> IrReceiver) \<Rightarrow> IrCall
     \<Rightarrow> error + string" where
  "IrCall_String regs names fnstr rxs self =
     (case call_Fn self of
        None \<Rightarrow> Inl NilDereference
      | Some fn \<Rightarrow>
         if (call_Rx self = None) = (ch_Type fn = ICall)
         then Inl (Panic ''invalid receiver value'')
         else
           (case (case ch_Type fn of
                    CCall \<Rightarrow> Inr ''ccall''
                  | GCall \<Rightarrow> Inr ''gcall''
                  | ICall \<Rightarrow> Inr ''icall''
                  | OtherCall \<Rightarrow> Inl (Panic ''invalid call type'')) of
              Inl e \<Rightarrow> Inl e
            | Inr knd \<Rightarrow>
               (let desc = (if ch_Type fn \<noteq> ICall then fnstr fn
                            else ''#'' @ fmt_int (sint (ch_Slot fn)));
                    recv = (case call_Rx self of
                              None \<Rightarrow> ''''
                            | Some a \<Rightarrow>
                                '', {'' @ fmt_s (Reg_String regs names (rx_T (rxs a))) @ '', ''
                                @ fmt_s (Reg_String regs names (rx_V (rxs a))) @ ''}'')
                in case regs_String regs names (call_In self) of
                     Inl e \<Rightarrow> Inl e
                   | Inr ins \<Rightarrow>
                      (case regs_String regs names (call_Out self) of
                         Inl e \<Rightarrow> Inl e
                       | Inr outs \<Rightarrow>
                          if length outs = 0
                          then Inr (knd @ '' '' @ desc @ recv @ '', {''
                                    @ strings_Join ins '', '' @ ''}'')
                          else Inr (strings_Join outs '', '' @ '' = '' @ knd @ '' '' @ desc
                                    @ recv @ '', {'' @ strings_Join ins '', '' @ ''}'')))))"

text \<open>
  Modelled from the spec: the helper \<^verbatim>\<open>regsliceref\<close> is defined elsewhere in the package;
  it returns the locations of the elements of a register slice, in order.
\<close>

definition regsliceref :: "addr \<Rightarrow> string \<Rightarrow> Reg list \<Rightarrow> regptr list" where
  "regsliceref self f rs = map (RegIndex self f) [0 ..< length rs]"

definition IrCall_Usages :: "addr \<Rightarrow> IrCall \<Rightarrow> regptr list" where
  "IrCall_Usages self c =
     (let ins = regsliceref self ''In'' (call_In c) in
      case call_Rx c of
        None \<Rightarrow> ins
      | Some a \<Rightarrow> [RegField a ''T'', RegField a ''V''] @ ins)"

definition IrCall_Definations :: "addr \<Rightarrow> IrCall \<Rightarrow> regptr list" where
  "IrCall_Definations self c = regsliceref self ''Out'' (call_Out c)"

section \<open>Auxiliary notions for the proofs\<close>

text \<open>
  What the proofs need from a sort interface: an abstraction \<open>\<alpha>\<close> of the data as a list
  of elements, a key \<open>f\<close>, and an invariant \<open>I\<close> of the representation, such that on
  positions inside the list \<open>lss\<close> compares the keys and \<open>swp\<close> exchanges two elements
  and keeps the invariant.
\<close>

definition sort_iface ::
  "('s \<Rightarrow> 'e list) \<Rightarrow> ('e \<Rightarrow> int) \<Rightarrow> ('s \<Rightarrow> bool) \<Rightarrow> ('s \<Rightarrow> nat \<Rightarrow> nat \<Rightarrow> bool)
     \<Rightarrow> ('s \<Rightarrow> nat \<Rightarrow> nat \<Rightarrow> 's) \<Rightarrow> bool" where
  "sort_iface \<alpha> f I lss swp \<longleftrightarrow>
     (\<forall>s i j. I s \<longrightarrow> i < length (\<alpha> s) \<longrightarrow> j < length (\<alpha> s) \<longrightarrow>
        I (swp s i j)
        \<and> lss s i j = (f (\<alpha> s ! i) < f (\<alpha> s ! j))
        \<and> \<alpha> (swp s i j) = (\<alpha> s)[i := \<alpha> s ! j, j := \<alpha> s ! i])"

text \<open>A map entry as a switch target and back; the text of one branch of a switch; the
  block identifier under which a phi entry is sorted.\<close>

definition mk_target :: "int64 \<times> bbptr \<Rightarrow> SwitchTarget" where
  "mk_target e = \<lparr>st_i = fst e, st_b = snd e\<rparr>"

definition target_entry :: "SwitchTarget \<Rightarrow> int64 \<times> bbptr" where
  "target_entry x = (st_i x, st_b x)"

definition case_line :: "bbheap \<Rightarrow> int64 \<times> bbptr \<Rightarrow> string" where
  "case_line h e = switch_case_line (fst e) (blk_Id (h (the (snd e))))"

definition phi_key :: "bbheap \<Rightarrow> bbptr \<times> regptr \<Rightarrow> go_int" where
  "phi_key h e = blk_Id (h (the (fst e)))"
section \<open>Properties of the register encoding\<close>

lemmas reg_consts = B_ptr_def B_kind_def M_ptr_def M_kind_def R_ptr_def R_kind_def R_index_def
  K_max_def K_arch_def K_zero_def K_temp_def K_norm_def

text \<open>The three masks, bit by bit.\<close>

lemma bit_R_index: "bit R_index n \<longleftrightarrow> n < 59"
proof -
  have m: "R_index = mask 59" by (simp add: reg_consts mask_eq_exp_minus_1)
  show ?thesis unfolding m by (auto simp add: bit_simps)
qed

lemma bit_R_ptr: "bit R_ptr n \<longleftrightarrow> n = 63"
proof -
  have "R_ptr = push_bit 63 1" by (simp only: R_ptr_def B_ptr_def M_ptr_def)
  then have "bit R_ptr n \<longleftrightarrow> bit (push_bit 63 1 :: 64 word) n" by (rule arg_cong)
  also have "\<dots> \<longleftrightarrow> n = 63" unfolding bit_push_bit_iff by (auto simp add: bit_simps)
  finally show ?thesis .
qed

lemma bit_R_kind: "bit R_kind n \<longleftrightarrow> 59 \<le> n \<and> n < 63"
proof -
  have "R_kind = push_bit 59 (mask 4)" by (simp add: reg_consts mask_eq_exp_minus_1)
  then have "bit R_kind n \<longleftrightarrow> bit (push_bit 59 (mask 4) :: 64 word) n" by (rule arg_cong)
  also have "\<dots> \<longleftrightarrow> 59 \<le> n \<and> n < 63" unfolding bit_push_bit_iff by (auto simp add: bit_simps)
  finally show ?thesis .
qed

lemma bit_K_norm_shift: "bit (push_bit B_kind K_norm :: 64 word) n \<longleftrightarrow> 59 \<le> n \<and> n < 63"
proof -
  have "push_bit B_kind K_norm = R_kind" by (simp add: reg_consts)
  then show ?thesis by (simp only: bit_R_kind)
qed

lemmas bit_reg = bit_R_index bit_R_ptr bit_R_kind bit_K_norm_shift bit_and_iff bit_or_iff

lemma Ptr_bit: "Ptr r \<longleftrightarrow> bit r 63"
proof -
  have "r AND R_ptr = 0 \<longleftrightarrow> \<not> bit r 63"
  proof
    assume "r AND R_ptr = 0"
    then have "\<not> bit (r AND R_ptr) 63" by simp
    then show "\<not> bit r 63" by (simp add: bit_reg)
  next
    assume "\<not> bit r 63"
    then show "r AND R_ptr = 0" by (intro bit_word_eqI) (auto simp add: bit_reg)
  qed
  then show ?thesis by (simp add: Ptr_def)
qed

lemma bit_Index: "bit (Index r) n \<longleftrightarrow> n < 59 \<and> bit r n"
  by (auto simp add: Index_def bit_reg)

lemma bit_kind: "bit (kind r) n \<longleftrightarrow> n < 4 \<and> bit r (59 + n)"
  by (auto simp add: kind_def bit_reg B_kind_def bit_ucast_iff bit_drop_bit_eq)

lemma bit_rename: "bit (rename r i) n \<longleftrightarrow> (if n < 59 then bit i n else bit r n)"
  by (auto simp add: rename_def bit_reg dest: bit_imp_le_length)

lemma bit_normalize:
  "bit (normalize_reg r i) n \<longleftrightarrow>
     (if n < 59 then bit i n else if n < 63 then True else n = 63 \<and> bit r 63)"
  by (auto simp add: normalize_reg_def bit_reg dest: bit_imp_le_length)

lemma bit_mkreg_word:
  "bit (push_bit B_ptr (p AND M_ptr) OR push_bit B_kind (k AND M_kind) :: 64 word) n
     \<longleftrightarrow> (n = 63 \<and> bit p 0) \<or> (59 \<le> n \<and> n < 63 \<and> bit k (n - 59))"
proof -
  have m: "M_kind = mask 4" by (simp add: reg_consts mask_eq_exp_minus_1)
  show ?thesis
    unfolding bit_or_iff bit_push_bit_iff bit_and_iff m
    by (auto simp add: B_ptr_def B_kind_def M_ptr_def bit_simps)
qed

lemma Ptr_rename: "Ptr (rename r i) = Ptr r"
  by (simp add: Ptr_bit bit_rename)

lemma kind_rename: "kind (rename r i) = kind r"
  by (rule bit_word_eqI) (simp add: bit_kind bit_rename)



lemma kind_normalize: "kind (normalize_reg r i) = 15"
proof -
  have "kind (normalize_reg r i) = mask 4"
    by (rule bit_word_eqI) (auto simp add: bit_kind bit_normalize bit_simps)
  then show ?thesis by (simp add: mask_eq_exp_minus_1)
qed

lemma kind_Rz: "kind Rz = 13" by (simp add: kind_def Rz_def reg_consts)
lemma kind_Pn: "kind Pn = 13" by (simp add: kind_def Pn_def reg_consts)
lemma kind_Tr: "kind Tr = 14" by (simp add: kind_def Tr_def reg_consts)
lemma kind_Pr: "kind Pr = 14" by (simp add: kind_def Pr_def reg_consts)
lemma Ptr_Rz: "\<not> Ptr Rz" by (simp add: Ptr_def Rz_def reg_consts)
lemma Ptr_Pn: "Ptr Pn" by (simp add: Ptr_def Pn_def reg_consts)
lemma Ptr_Tr: "\<not> Ptr Tr" by (simp add: Ptr_def Tr_def reg_consts)
lemma Ptr_Pr: "Ptr Pr" by (simp add: Ptr_def Pr_def reg_consts)


text \<open>What \<^verbatim>\<open>mkreg\<close> returns for a generic kind: the pointer bit is the low bit of \<open>p\<close>, the
  kind is \<open>k\<close> and the index is zero.\<close>

lemma mkreg_generic:
  assumes k: "k \<le> K_max"
  shows "\<exists>r. mkreg p k = Inr r \<and> Ptr r = bit p 0 \<and> kind r = ucast k \<and> Index r = 0"
proof -
  let ?r = "push_bit B_ptr (p AND M_ptr) OR push_bit B_kind (k AND M_kind) :: 64 word"
  have mk: "mkreg p k = Inr ?r" using k by (simp add: mkreg_def not_less[symmetric])
  have k8: "k < 2 ^ 3" using k by (simp add: K_max_def word_le_nat_alt word_less_nat_alt)
  have kb: "bit k n \<Longrightarrow> n < 3" for n
    using k8 by (metis bit_take_bit_iff less_mask_eq take_bit_eq_mask)
  have "Ptr ?r = bit p 0" unfolding Ptr_bit bit_mkreg_word by simp
  moreover have "kind ?r = ucast k"
    by (rule bit_word_eqI, unfold bit_kind bit_mkreg_word) (auto simp add: bit_ucast_iff dest: kb)
  moreover have "Index ?r = 0"
    by (rule bit_word_eqI, unfold bit_Index bit_mkreg_word) auto
  ultimately show ?thesis using mk by simp
qed

subsection \<open>Claim C1\<close>

text \<open>
  C1, as stated: \<^verbatim>\<open>make(pointerFlag, kind, index)\<close> panics when the kind is above the
  maximum generic class 7, unless the kind is one of the four reserved kinds 12 to 15. The
  source has no such exception: \<^verbatim>\<open>mkreg\<close> panics for the architecture-specific kind 12
  (and likewise for 13, 14 and 15).
\<close>

theorem mkreg_reserved_kind_counterexample:
  "mkreg 0 K_arch = Inl (Panic ''invalid register kind: 12'')"
  by (simp add: mkreg_def K_max_def K_arch_def digit_char_def)

text \<open>
  C1, amended: \<^verbatim>\<open>mkreg(ptr, kind)\<close>, which takes no index, panics with the message
  \<^verbatim>\<open>invalid register kind: <kind>\<close> (the kind in decimal) for every kind above 7, the kinds
  8 to 11 and the four reserved kinds 12, 13, 14 and 15 alike; for every kind up to 7 it
  returns the register with that kind, the pointer flag taken from the low bit of \<open>ptr\<close>
  and index zero.
\<close>

theorem mkreg_rejects_above_max:
  "(K_max < k \<longrightarrow>
        mkreg p k = Inl (Panic (''invalid register kind: '' @ fmt_nat (unat k))))
   \<and> mkreg p K_arch = Inl (Panic ''invalid register kind: 12'')
   \<and> mkreg p K_zero = Inl (Panic ''invalid register kind: 13'')
   \<and> mkreg p K_temp = Inl (Panic ''invalid register kind: 14'')
   \<and> mkreg p K_norm = Inl (Panic ''invalid register kind: 15'')
   \<and> (k \<le> K_max \<longrightarrow>
        (\<exists>r. mkreg p k = Inr r \<and> Ptr r = bit p 0 \<and> kind r = ucast k \<and> Index r = 0))"
proof (intro conjI impI)
  assume "K_max < k"
  then show "mkreg p k = Inl (Panic (''invalid register kind: '' @ fmt_nat (unat k)))"
    by (simp add: mkreg_def)
next
  show "mkreg p K_arch = Inl (Panic ''invalid register kind: 12'')"
    by (simp add: mkreg_def K_max_def K_arch_def digit_char_def)
next
  show "mkreg p K_zero = Inl (Panic ''invalid register kind: 13'')"
    by (simp add: mkreg_def K_max_def K_zero_def digit_char_def)
next
  show "mkreg p K_temp = Inl (Panic ''invalid register kind: 14'')"
    by (simp add: mkreg_def K_max_def K_temp_def digit_char_def)
next
  show "mkreg p K_norm = Inl (Panic ''invalid register kind: 15'')"
    by (simp add: mkreg_def K_max_def K_norm_def digit_char_def)
next
  assume "k \<le> K_max"
  then show "\<exists>r. mkreg p k = Inr r \<and> Ptr r = bit p 0 \<and> kind r = ucast k \<and> Index r = 0"
    by (rule mkreg_generic)
qed

theorem mkreg_rejects_above_max_witness:
  "K_max < (9 :: 64 word) \<and> mkreg 1 9 = Inl (Panic ''invalid register kind: 9'')
   \<and> K_max < (13 :: 64 word) \<and> mkreg 1 13 = Inl (Panic ''invalid register kind: 13'')
   \<and> (3 :: 64 word) \<le> K_max
   \<and> (\<exists>r. mkreg 1 3 = Inr r \<and> Ptr r = bit (1 :: 64 word) 0
          \<and> kind r = ucast (3 :: 64 word) \<and> Index r = 0)"
  using mkreg_rejects_above_max [of 9 1] mkreg_rejects_above_max [of 13 1]
    mkreg_rejects_above_max [of 3 1]
  by (simp add: K_max_def digit_char_def)

subsection \<open>Claim C5\<close>



subsection \<open>Claim C6\<close>

text \<open>
  C6: for every register \<open>r\<close> and every index \<open>i\<close> (in particular every index that fits the
  index field), renaming twice with \<open>i\<close> is renaming once, \<^verbatim>\<open>normalize(i)\<close> has the
  SSA-normalized kind whatever the kind of \<open>r\<close> was, and \<^verbatim>\<open>normalize(i)\<close> keeps the pointer
  flag of \<open>r\<close>.
\<close>

theorem rename_normalize_laws:
  "rename (rename r i) i = rename r i
   \<and> kind (normalize_reg r i) = ucast K_norm
   \<and> Ptr (normalize_reg r i) = Ptr r"
proof -
  have "rename (rename r i) i = rename r i"
    by (rule bit_word_eqI) (simp add: bit_rename)
  moreover have "kind (normalize_reg r i) = ucast K_norm"
    by (simp add: kind_normalize K_norm_def)
  moreover have "Ptr (normalize_reg r i) = Ptr r"
    by (simp add: Ptr_bit bit_normalize)
  ultimately show ?thesis by blast
qed

subsection \<open>Claim C7\<close>

text \<open>
  C7: zero mapping. \<^verbatim>\<open>Rz.zero()\<close> is \<^verbatim>\<open>Rz\<close> and \<^verbatim>\<open>Pn.zero()\<close> is \<^verbatim>\<open>Pn\<close>; a register that is not a
  pointer maps to \<^verbatim>\<open>Rz\<close> and a pointer register maps to \<^verbatim>\<open>Pn\<close>.
\<close>

theorem zero_mapping:
  "zero_reg Rz = Rz \<and> zero_reg Pn = Pn \<and> (\<not> Ptr r \<longrightarrow> zero_reg r = Rz) \<and> (Ptr r \<longrightarrow> zero_reg r = Pn)"
  by (simp add: zero_reg_def Ptr_Rz Ptr_Pn)

theorem zero_mapping_witness:
  "\<not> Ptr Tr \<and> zero_reg Tr = Rz \<and> Ptr Pr \<and> zero_reg Pr = Pn \<and> zero_reg Rz = Rz \<and> zero_reg Pn = Pn"
  using zero_mapping [of Tr] zero_mapping [of Pr]
  by (simp add: Ptr_Tr Ptr_Pr)

subsection \<open>Claim C9\<close>

text \<open>
  C9: the text of a zero-kind register does not depend on its index. For every index \<open>i\<close>,
  \<^verbatim>\<open>Rz.rename(i)\<close> still has the zero kind and renders as \<^verbatim>\<open>$0\<close>, and \<^verbatim>\<open>Pn.rename(i)\<close> still
  has the zero kind and renders as \<^verbatim>\<open>nil\<close>; with index 1 these registers differ from the
  canonical \<^verbatim>\<open>Rz\<close> and \<^verbatim>\<open>Pn\<close>.
\<close>

theorem zero_kind_string_ignores_index:
  "Reg_String regs names (rename Rz i) = Inr ''$0''
   \<and> Reg_String regs names (rename Pn i) = Inr ''nil''
   \<and> kind (rename Rz i) = ucast K_zero \<and> kind (rename Pn i) = ucast K_zero
   \<and> rename Rz 1 \<noteq> Rz \<and> rename Pn 1 \<noteq> Pn"
proof -
  have "Reg_String regs names (rename Rz i) = Inr ''$0''"
    by (simp add: Reg_String_def kind_rename Ptr_rename kind_Rz Ptr_Rz reg_consts)
  moreover have "Reg_String regs names (rename Pn i) = Inr ''nil''"
    by (simp add: Reg_String_def kind_rename Ptr_rename kind_Pn Ptr_Pn reg_consts)
  moreover have "kind (rename Rz i) = ucast K_zero \<and> kind (rename Pn i) = ucast K_zero"
    by (simp add: kind_rename kind_Rz kind_Pn K_zero_def)
  moreover have "rename Rz 1 \<noteq> Rz \<and> rename Pn 1 \<noteq> Pn"
    by (simp add: rename_def Rz_def Pn_def reg_consts)
  ultimately show ?thesis by blast
qed

section \<open>The insertion sort orders its range\<close>

lemma sort_ifaceD:
  assumes "sort_iface \<alpha> f I lss swp" "I s" "i < length (\<alpha> s)" "j < length (\<alpha> s)"
  shows "I (swp s i j)"
    and "lss s i j = (f (\<alpha> s ! i) < f (\<alpha> s ! j))"
    and "\<alpha> (swp s i j) = (\<alpha> s)[i := \<alpha> s ! j, j := \<alpha> s ! i]"
  using assms unfolding sort_iface_def by blast+

lemma inner_0: "insertion_inner lss swp 0 s 0 = s"
  by (simp add: insertion_inner.simps)

lemma inner_Suc:
  "insertion_inner lss swp 0 s (Suc j) =
     (if lss s (Suc j) j then insertion_inner lss swp 0 (swp s (Suc j) j) j else s)"
  by (subst insertion_inner.simps) simp

lemma inner_props:
  assumes sf: "sort_iface \<alpha> f I lss swp"
  shows "I s \<Longrightarrow> j < length (\<alpha> s) \<Longrightarrow>
         I (insertion_inner lss swp 0 s j)
         \<and> mset (\<alpha> (insertion_inner lss swp 0 s j)) = mset (\<alpha> s)
         \<and> (\<forall>m. j < m \<longrightarrow> \<alpha> (insertion_inner lss swp 0 s j) ! m = \<alpha> s ! m)"
proof (induction j arbitrary: s)
  case 0
  then show ?case by (simp add: inner_0)
next
  case (Suc j)
  show ?case
  proof (cases "lss s (Suc j) j")
    case False
    then show ?thesis using Suc.prems by (simp add: inner_Suc)
  next
    case True
    let ?s' = "swp s (Suc j) j"
    have j: "j < length (\<alpha> s)" using Suc.prems by simp
    have I': "I ?s'" and a': "\<alpha> ?s' = (\<alpha> s)[Suc j := \<alpha> s ! j, j := \<alpha> s ! Suc j]"
      using sort_ifaceD[OF sf Suc.prems(1) Suc.prems(2) j] by simp_all
    have len: "j < length (\<alpha> ?s')" using j by (simp add: a')
    have ms: "mset (\<alpha> ?s') = mset (\<alpha> s)"
      unfolding a' using mset_swap[OF j Suc.prems(2)] by simp
    have above: "\<alpha> ?s' ! m = \<alpha> s ! m" if "Suc j < m" for m
      using that by (simp add: a')
    from Suc.IH[OF I' len] ms above show ?thesis
      using True by (simp add: inner_Suc)
  qed
qed

lemma inner_sorted:
  assumes sf: "sort_iface \<alpha> f I lss swp"
  shows "I s \<Longrightarrow> j \<le> n \<Longrightarrow> n < length (\<alpha> s) \<Longrightarrow>
         (\<forall>a b. a < b \<and> b \<le> n \<and> b \<noteq> j \<longrightarrow> f (\<alpha> s ! a) \<le> f (\<alpha> s ! b)) \<Longrightarrow>
         (\<forall>a b. a < b \<and> b \<le> n \<longrightarrow>
            f (\<alpha> (insertion_inner lss swp 0 s j) ! a) \<le> f (\<alpha> (insertion_inner lss swp 0 s j) ! b))"
proof (induction j arbitrary: s)
  case 0
  then show ?case by (auto simp add: inner_0)
next
  case (Suc j)
  let ?xs = "\<alpha> s"
  have j: "j < length ?xs" and sj: "Suc j < length ?xs" using Suc.prems by simp_all
  have ord: "f (?xs ! a) \<le> f (?xs ! b)" if "a < b" "b \<le> n" "b \<noteq> Suc j" for a b
    using Suc.prems(4) that by blast
  show ?case
  proof (cases "lss s (Suc j) j")
    case False
    then have ge: "f (?xs ! j) \<le> f (?xs ! Suc j)"
      using sort_ifaceD(2)[OF sf Suc.prems(1) sj j] by simp
    have "f (?xs ! a) \<le> f (?xs ! b)" if "a < b" "b \<le> n" for a b
    proof (cases "b = Suc j")
      case False
      then show ?thesis using ord that by blast
    next
      case True
      show ?thesis
      proof (cases "a = j")
        case True
        then show ?thesis using ge \<open>b = Suc j\<close> by simp
      next
        case False
        then have "a < j" using that True by simp
        then have "f (?xs ! a) \<le> f (?xs ! j)" using ord[of a j] Suc.prems(2) by simp
        then show ?thesis using ge True by simp
      qed
    qed
    then show ?thesis using False by (simp add: inner_Suc)
  next
    case True
    then have lt: "f (?xs ! Suc j) < f (?xs ! j)"
      using sort_ifaceD(2)[OF sf Suc.prems(1) sj j] by simp
    let ?s' = "swp s (Suc j) j"
    have I': "I ?s'" and a': "\<alpha> ?s' = ?xs[Suc j := ?xs ! j, j := ?xs ! Suc j]"
      using sort_ifaceD[OF sf Suc.prems(1) sj j] by simp_all
    have len: "n < length (\<alpha> ?s')" using Suc.prems(3) by (simp add: a')
    have ord': "\<forall>a b. a < b \<and> b \<le> n \<and> b \<noteq> j \<longrightarrow> f (\<alpha> ?s' ! a) \<le> f (\<alpha> ?s' ! b)"
    proof (intro allI impI, elim conjE)
      fix a b assume ab: "a < b" "b \<le> n" "b \<noteq> j"
      have bl: "b < length ?xs" and al: "a < length ?xs" using ab Suc.prems(3) by simp_all
      consider (1) "b = Suc j" "a = j" | (2) "b = Suc j" "a < j"
        | (3) "Suc j < b" "a = Suc j" | (4) "Suc j < b" "a = j" | (5) "Suc j < b" "a \<noteq> j" "a \<noteq> Suc j"
        | (6) "b < j"
        using ab by linarith
      then show "f (\<alpha> ?s' ! a) \<le> f (\<alpha> ?s' ! b)"
      proof cases
        case 1 then show ?thesis using lt j sj by (simp add: a')
      next
        case 2
        then have "f (?xs ! a) \<le> f (?xs ! j)" using ord[of a j] Suc.prems(2) by simp
        then show ?thesis using 2 j sj al by (simp add: a')
      next
        case 3
        then have "f (?xs ! j) \<le> f (?xs ! b)" using ord[of j b] ab by simp
        then show ?thesis using 3 j sj bl by (simp add: a')
      next
        case 4
        then have "f (?xs ! Suc j) \<le> f (?xs ! b)" using ord[of "Suc j" b] ab by simp
        then show ?thesis using 4 j sj bl by (simp add: a')
      next
        case 5
        then have "f (?xs ! a) \<le> f (?xs ! b)" using ord[of a b] ab by simp
        then show ?thesis using 5 j sj bl al ab by (simp add: a')
      next
        case 6
        then have "f (?xs ! a) \<le> f (?xs ! b)" using ord[of a b] ab by simp
        then show ?thesis using 6 j sj bl al ab by (simp add: a')
      qed
    qed
    have "j \<le> n" using Suc.prems(2) by simp
    from Suc.IH[OF I' this len ord'] show ?thesis using True by (simp add: inner_Suc)
  qed
qed

lemma insertionSort_0: "insertionSort lss swp s 0 0 = s"
  by (simp add: insertionSort_def)

lemma insertionSort_1: "insertionSort lss swp s 0 (Suc 0) = s"
  by (simp add: insertionSort_def)

lemma insertionSort_Suc:
  "0 < m \<Longrightarrow> insertionSort lss swp s 0 (Suc m) =
     insertion_inner lss swp 0 (insertionSort lss swp s 0 m) m"
  by (simp add: insertionSort_def)

lemma insertionSort_props:
  assumes sf: "sort_iface \<alpha> f I lss swp" and I: "I s"
  shows "n \<le> length (\<alpha> s) \<Longrightarrow>
         I (insertionSort lss swp s 0 n)
         \<and> mset (\<alpha> (insertionSort lss swp s 0 n)) = mset (\<alpha> s)
         \<and> (\<forall>m. n \<le> m \<longrightarrow> \<alpha> (insertionSort lss swp s 0 n) ! m = \<alpha> s ! m)
         \<and> (\<forall>a b. a < b \<and> b < n \<longrightarrow>
               f (\<alpha> (insertionSort lss swp s 0 n) ! a) \<le> f (\<alpha> (insertionSort lss swp s 0 n) ! b))"
proof (induction n)
  case 0
  then show ?case using I by (simp add: insertionSort_0)
next
  case (Suc m)
  show ?case
  proof (cases "m = 0")
    case True
    then show ?thesis using I by (simp add: insertionSort_1)
  next
    case False
    let ?sm = "insertionSort lss swp s 0 m"
    have IH: "I ?sm" "mset (\<alpha> ?sm) = mset (\<alpha> s)"
      "\<And>p. m \<le> p \<Longrightarrow> \<alpha> ?sm ! p = \<alpha> s ! p"
      "\<And>a b. a < b \<Longrightarrow> b < m \<Longrightarrow> f (\<alpha> ?sm ! a) \<le> f (\<alpha> ?sm ! b)"
      using Suc.IH Suc.prems by simp_all
    have "length (\<alpha> ?sm) = length (\<alpha> s)" using IH(2) by (rule mset_eq_length)
    then have len: "m < length (\<alpha> ?sm)" using Suc.prems by simp
    have step: "insertionSort lss swp s 0 (Suc m) = insertion_inner lss swp 0 ?sm m"
      using False by (simp add: insertionSort_Suc)
    have ord: "\<forall>a b. a < b \<and> b \<le> m \<and> b \<noteq> m \<longrightarrow> f (\<alpha> ?sm ! a) \<le> f (\<alpha> ?sm ! b)"
      using IH(4) by simp
    from inner_props[OF sf IH(1) len] inner_sorted[OF sf IH(1) le_refl len ord]
    show ?thesis unfolding step using IH(2,3) by (auto simp add: less_Suc_eq_le)
  qed
qed

text \<open>With pairwise distinct keys the sorted permutation is unique, whatever algorithm
  produced it.\<close>

lemma sorted_perm_unique:
  fixes f :: "'a \<Rightarrow> int"
  assumes "mset xs = mset ys" "sorted (map f xs)" "sorted (map f ys)"
    "inj_on f (set xs)" "distinct xs"
  shows "xs = ys"
proof -
  have s: "set xs = set ys" using assms(1) by (rule mset_eq_setD)
  have d: "distinct ys" using mset_eq_imp_distinct_iff[OF assms(1)] assms(5) by simp
  show ?thesis
    using assms s d
    by (intro map_sorted_distinct_set_unique[of f]) (simp_all add: distinct_map)
qed

text \<open>What the sort leaves: the range is a sorted permutation of what it was, the rest of
  the data is untouched.\<close>

lemma insertionSort_result:
  assumes sf: "sort_iface \<alpha> f I lss swp" and I: "I s" and n: "n \<le> length (\<alpha> s)"
  defines "s' \<equiv> insertionSort lss swp s 0 n"
  shows "I s'" and "length (\<alpha> s') = length (\<alpha> s)"
    and "mset (take n (\<alpha> s')) = mset (take n (\<alpha> s))"
    and "drop n (\<alpha> s') = drop n (\<alpha> s)"
    and "sorted (map f (take n (\<alpha> s')))"
proof -
  note p = insertionSort_props[OF sf I n, folded s'_def]
  show "I s'" using p by simp
  show len: "length (\<alpha> s') = length (\<alpha> s)" using p mset_eq_length by blast
  show dr: "drop n (\<alpha> s') = drop n (\<alpha> s)"
    using p len by (intro nth_equalityI) simp_all
  have "mset (take n (\<alpha> s')) + mset (drop n (\<alpha> s')) = mset (take n (\<alpha> s)) + mset (drop n (\<alpha> s))"
    using p by (simp add: union_code)
  then show "mset (take n (\<alpha> s')) = mset (take n (\<alpha> s))" by (simp add: dr)
  show "sorted (map f (take n (\<alpha> s')))"
    using p len n by (auto simp add: sorted_iff_nth_mono_less)
qed

section \<open>Switch terminators\<close>

lemma switch_iface:
  "sort_iface (\<lambda>t. t) (\<lambda>x. sint (st_i x)) (\<lambda>_. True) SwitchTarget_less slice_swap"
  unfolding sort_iface_def SwitchTarget_less_def slice_swap_def by simp

lemma mk_target_entry [simp]: "mk_target (target_entry x) = x" "target_entry (mk_target e) = e"
  by (simp_all add: mk_target_def target_entry_def)

lemma iter_unfold:
  "IrSwitch_iter sw = \<lparr>it_i = - 1, it_t = sort_Slice (length (sw_Br sw)) SwitchTarget_less
      (map mk_target (sw_Br sw) @ [\<lparr>st_i = 0, st_b = sw_Ln sw\<rparr>])\<rparr>"
proof -
  have "(\<lambda>(i, b). \<lparr>st_i = i, st_b = b\<rparr>) = mk_target"
    by (auto simp add: mk_target_def fun_eq_iff)
  then show ?thesis by (simp add: IrSwitch_iter_def Let_def)
qed

lemma iter_sorted:
  "\<exists>es. mset es = mset (sw_Br sw) \<and> sorted (map (\<lambda>e. sint (fst e)) es)
     \<and> IrSwitch_iter sw = \<lparr>it_i = - 1, it_t = map mk_target es @ [\<lparr>st_i = 0, st_b = sw_Ln sw\<rparr>]\<rparr>"
proof -
  let ?n = "length (sw_Br sw)"
  let ?d = "\<lparr>st_i = 0, st_b = sw_Ln sw\<rparr>"
  let ?init = "map mk_target (sw_Br sw) @ [?d]"
  let ?t = "sort_Slice ?n SwitchTarget_less ?init"
  have n: "?n \<le> length ?init" by simp
  note r = insertionSort_result[OF switch_iface TrueI n, folded sort_Slice_def]
  let ?es = "map target_entry (take ?n ?t)"
  have len: "length ?t = Suc ?n" using r(2) by simp
  have "?t = take ?n ?t @ drop ?n ?t" by simp
  also have "drop ?n ?t = [?d]" using r(4) by simp
  also have "take ?n ?t = map mk_target ?es" by (simp add: comp_def)
  finally have t: "?t = map mk_target ?es @ [?d]" .
  have "mset ?es = image_mset target_entry (mset (take ?n ?t))" by simp
  also have "\<dots> = image_mset target_entry (mset (map mk_target (sw_Br sw)))"
    using r(3) by simp
  also have "\<dots> = mset (sw_Br sw)" by (simp add: multiset.map_comp comp_def)
  finally have m: "mset ?es = mset (sw_Br sw)" .
  have "(\<lambda>e. sint (fst e)) \<circ> target_entry = (\<lambda>x. sint (st_i x))"
    by (simp add: fun_eq_iff target_entry_def)
  then have s: "sorted (map (\<lambda>e. sint (fst e)) ?es)" using r(5) by (simp only: map_map)
  show ?thesis using m s t iter_unfold[of sw] by metis
qed

lemma edges_from:
  "j \<le> length t \<Longrightarrow>
   successor_edges \<lparr>it_i = int j - 1, it_t = t\<rparr> =
     Inr (map (\<lambda>m. (st_b (t ! m),
                    if Suc m < length t then (st_i (t ! m), True) else (0, False)))
              [j ..< length t])"
proof (induction "length t - j" arbitrary: j)
  case 0
  then have "j = length t" by simp
  then show ?case
    by (subst successor_edges.simps) (simp add: SwitchSuccessors_Next_def Let_def)
next
  case (Suc d)
  then have j: "j < length t" by simp
  have it: "\<lparr>it_i = int j, it_t = t\<rparr> = \<lparr>it_i = int (Suc j) - 1, it_t = t\<rparr>" by simp
  have IH: "successor_edges \<lparr>it_i = int j, it_t = t\<rparr> =
     Inr (map (\<lambda>m. (st_b (t ! m),
                    if Suc m < length t then (st_i (t ! m), True) else (0, False)))
              [Suc j ..< length t])"
    unfolding it using Suc.hyps(1)[of "Suc j"] Suc.hyps(2) j by simp
  have v: "(int (length t) - 1 \<le> int j) = (\<not> Suc j < length t)" by auto
  show ?case
    using j
    by (subst successor_edges.simps)
       (simp add: SwitchSuccessors_Next_def SwitchSuccessors_Block_def
          SwitchSuccessors_Value_def Let_def IH v upt_conv_Cons)
qed

lemma edges_of_targets:
  "successor_edges \<lparr>it_i = - 1, it_t = map mk_target es @ [\<lparr>st_i = 0, st_b = ln\<rparr>]\<rparr> =
     Inr (map (\<lambda>e. (snd e, fst e, True)) es @ [(ln, 0, False)])"
proof -
  let ?t = "map mk_target es @ [\<lparr>st_i = 0, st_b = ln\<rparr>]"
  have "successor_edges \<lparr>it_i = int 0 - 1, it_t = ?t\<rparr> =
     Inr (map (\<lambda>m. (st_b (?t ! m),
                    if Suc m < length ?t then (st_i (?t ! m), True) else (0, False)))
              [0 ..< length ?t])"
    by (rule edges_from) simp
  moreover have "map (\<lambda>m. (st_b (?t ! m),
                    if Suc m < length ?t then (st_i (?t ! m), True) else (0, False)))
              [0 ..< length ?t] = map (\<lambda>e. (snd e, fst e, True)) es @ [(ln, 0, False)]"
    by (rule nth_equalityI) (auto simp add: nth_append mk_target_def less_Suc_eq)
  ultimately show ?thesis by simp
qed

lemma sint_inj: "inj (sint :: 'a::len word \<Rightarrow> int)"
  by (rule injI) (rule signed_word_eqI)

lemma distinct_keys_perm:
  fixes es br :: "('a::len word \<times> 'b) list"
  assumes "distinct (map fst br)" "mset es = mset br"
  shows "distinct es" "inj_on (\<lambda>e. sint (fst e)) (set es)"
proof -
  have "inj_on sint (set (map fst br))" by (rule inj_on_subset[OF sint_inj]) simp
  then have "distinct (map sint (map fst br))"
    using assms(1) by (subst distinct_map) simp
  then have "distinct (map (\<lambda>e. sint (fst e)) br)" by (simp add: comp_def)
  moreover have "mset (map (\<lambda>e. sint (fst e)) es) = mset (map (\<lambda>e. sint (fst e)) br)"
    using assms(2) by (metis mset_map)
  ultimately have "distinct (map (\<lambda>e. sint (fst e)) es)"
    using mset_eq_imp_distinct_iff by blast
  then show "distinct es" "inj_on (\<lambda>e. sint (fst e)) (set es)"
    by (simp_all add: distinct_map)
qed

subsection \<open>Claim C2\<close>

text \<open>
  C2: the successors of a switch. The branch map is a list of entries with distinct
  discriminant values, in whatever order \<^verbatim>\<open>range\<close> visits them: \<open>br'\<close> is any such order
  of the entries of \<open>sw_Br sw\<close>. Draining the iterator that \<^verbatim>\<open>Successors()\<close> returns stops
  after finitely many steps and yields exactly one edge per entry, in ascending order of
  the signed discriminant value, each with its own value and \<open>True\<close>, followed by the edge
  to the default block \<open>sw_Ln sw\<close> last, with no value (\<open>False\<close>). The sequence is the
  same for every order of the map and for every call, since the switch is not changed.
\<close>

theorem switch_successors:
  assumes "distinct (map fst (sw_Br sw))" and "mset br' = mset (sw_Br sw)"
  shows "successor_edges (IrSwitch_Successors (sw\<lparr>sw_Br := br'\<rparr>)) =
           Inr (map (\<lambda>(i, b). (b, i, True)) (sort_key (\<lambda>(i, b). sint i) (sw_Br sw))
                @ [(sw_Ln sw, 0, False)])
         \<and> sorted (map (\<lambda>(i, b). sint i) (sort_key (\<lambda>(i, b). sint i) (sw_Br sw)))
         \<and> mset (sort_key (\<lambda>(i, b). sint i) (sw_Br sw)) = mset (sw_Br sw)"
proof -
  let ?sw' = "sw\<lparr>sw_Br := br'\<rparr>"
  obtain es where es: "mset es = mset br'" "sorted (map (\<lambda>e. sint (fst e)) es)"
    "IrSwitch_iter ?sw' = \<lparr>it_i = - 1, it_t = map mk_target es @ [\<lparr>st_i = 0, st_b = sw_Ln sw\<rparr>]\<rparr>"
    using iter_sorted[of ?sw'] by auto
  have k: "(\<lambda>(i, b). sint i) = (\<lambda>e :: int64 \<times> bbptr. sint (fst e))" by (simp add: fun_eq_iff)
  have m: "mset es = mset (sw_Br sw)" using es(1) assms(2) by simp
  have "es = sort_key (\<lambda>e. sint (fst e)) (sw_Br sw)"
    using m es(2) distinct_keys_perm[OF assms(1) m]
    by (intro sorted_perm_unique[where f = "\<lambda>e. sint (fst e)"]) simp_all
  moreover have "(\<lambda>(i, b). (b, i, True)) = (\<lambda>e :: int64 \<times> bbptr. (snd e, fst e, True))"
    by (simp add: fun_eq_iff)
  ultimately show ?thesis
    by (simp add: IrSwitch_Successors_def es(3) edges_of_targets k)
qed

theorem switch_successors_witness:
  "distinct (map fst [(5, Some 50), (1, Some 10 :: bbptr)] :: int64 list)
   \<and> mset [(1 :: int64, Some 10 :: bbptr), (5, Some 50)] = mset [(5, Some 50), (1, Some 10)]
   \<and> successor_edges (IrSwitch_Successors \<lparr>sw_V = Rz, sw_Ln = Some 77, sw_Br = [(5, Some 50), (1, Some 10)]\<rparr>)
       = Inr [(Some 10, 1, True), (Some 50, 5, True), (Some 77, 0, False)]
   \<and> successor_edges (IrSwitch_Successors \<lparr>sw_V = Rz, sw_Ln = Some 77, sw_Br = [(1, Some 10), (5, Some 50)]\<rparr>)
       = Inr [(Some 10, 1, True), (Some 50, 5, True), (Some 77, 0, False)]"
proof -
  let ?sw = "\<lparr>sw_V = Rz, sw_Ln = Some 77, sw_Br = [(5 :: int64, Some 50 :: bbptr), (1, Some 10)]\<rparr>"
  have d: "distinct (map fst (sw_Br ?sw))" by simp
  have m1: "mset [(5 :: int64, Some 50 :: bbptr), (1, Some 10)] = mset (sw_Br ?sw)" by simp
  have m2: "mset [(1 :: int64, Some 10 :: bbptr), (5, Some 50)] = mset (sw_Br ?sw)" by simp
  show ?thesis
    using switch_successors[OF d m1] switch_successors[OF d m2] by simp
qed

subsection \<open>Claim C8\<close>

lemma switch_cases_lines:
  "None \<notin> snd ` set es \<Longrightarrow>
   switch_cases h (map mk_target es) r = Inr (r @ map (case_line h) es)"
proof (induction es arbitrary: r)
  case Nil
  then show ?case by simp
next
  case (Cons e es)
  from Cons.prems obtain a where a: "snd e = Some a" by (cases "snd e") auto
  have "None \<notin> snd ` set es" using Cons.prems by auto
  from Cons.IH[OF this] show ?case
    by (simp add: mk_target_def block_Id_def a case_line_def)
qed

text \<open>
  C8: a switch without branches renders as the jump \<^verbatim>\<open>goto bb_<id>\<close> to its default block
  (at address \<open>a\<close>), not as a switch block. A switch with at least one branch, whose
  branch targets are not nil, renders as the block \<^verbatim>\<open>switch <V> {\<close>, one line per branch
  in ascending order of the value, the default line, \<^verbatim>\<open>}\<close>, the lines joined by newlines.
\<close>

theorem switch_string:
  "(sw_Br sw = [] \<and> sw_Ln sw = Some a \<longrightarrow>
      IrSwitch_String regs names h sw = Inr (''goto bb_'' @ fmt_int (sint (blk_Id (h a)))))
   \<and> (sw_Br sw \<noteq> [] \<and> sw_Ln sw = Some a \<and> None \<notin> snd ` set (sw_Br sw)
        \<and> distinct (map fst (sw_Br sw)) \<longrightarrow>
      IrSwitch_String regs names h sw =
        Inr (''switch '' @ fmt_s (Reg_String regs names (sw_V sw)) @ '' {'' @ [CHR 0x0A]
             @ strings_Join
                 (map (\<lambda>(i, b). switch_case_line i (blk_Id (h (the b))))
                      (sort_key (\<lambda>(i, b). sint i) (sw_Br sw))
                  @ [switch_default_line (blk_Id (h a))])
                 [CHR 0x0A]
             @ [CHR 0x0A] @ ''}''))"
proof (intro conjI impI; elim conjE)
  assume "sw_Br sw = []" "sw_Ln sw = Some a"
  then show "IrSwitch_String regs names h sw = Inr (''goto bb_'' @ fmt_int (sint (blk_Id (h a))))"
    by (simp add: IrSwitch_String_def block_Id_def)
next
  assume ne: "sw_Br sw \<noteq> []" and ln: "sw_Ln sw = Some a"
    and nn: "None \<notin> snd ` set (sw_Br sw)" and d: "distinct (map fst (sw_Br sw))"
  obtain es where es: "mset es = mset (sw_Br sw)" "sorted (map (\<lambda>e. sint (fst e)) es)"
    "IrSwitch_iter sw = \<lparr>it_i = - 1, it_t = map mk_target es @ [\<lparr>st_i = 0, st_b = sw_Ln sw\<rparr>]\<rparr>"
    using iter_sorted[of sw] by auto
  have k: "(\<lambda>(i, b). sint i) = (\<lambda>e :: int64 \<times> bbptr. sint (fst e))" by (simp add: fun_eq_iff)
  have c: "(\<lambda>(i, b). switch_case_line i (blk_Id (h (the b)))) = case_line h"
    by (simp add: fun_eq_iff case_line_def)
  have eq: "es = sort_key (\<lambda>e. sint (fst e)) (sw_Br sw)"
    using es(1,2) distinct_keys_perm[OF d es(1)]
    by (intro sorted_perm_unique[where f = "\<lambda>e. sint (fst e)"]) simp_all
  have len: "length es = length (sw_Br sw)" using es(1) by (rule mset_eq_length)
  have "set es = set (sw_Br sw)" using es(1) by (rule mset_eq_setD)
  then have nn': "None \<notin> snd ` set es" using nn by simp
  have tk: "take (length (sw_Br sw)) (it_t (IrSwitch_iter sw)) = map mk_target es"
    by (simp add: es(3) len[symmetric])
  have n0: "length (sw_Br sw) \<noteq> 0" using ne by simp
  show "IrSwitch_String regs names h sw =
        Inr (''switch '' @ fmt_s (Reg_String regs names (sw_V sw)) @ '' {'' @ [CHR 0x0A]
             @ strings_Join
                 (map (\<lambda>(i, b). switch_case_line i (blk_Id (h (the b))))
                      (sort_key (\<lambda>(i, b). sint i) (sw_Br sw))
                  @ [switch_default_line (blk_Id (h a))])
                 [CHR 0x0A]
             @ [CHR 0x0A] @ ''}'')"
    unfolding IrSwitch_String_def Let_def tk switch_cases_lines[OF nn'] k c
    using n0 by (simp add: block_Id_def ln eq)
qed

theorem switch_string_witness:
  "IrSwitch_String [] (\<lambda>x :: nat. []) (\<lambda>a. \<lparr>blk_Id = of_nat a\<rparr>)
      \<lparr>sw_V = Rz, sw_Ln = Some 12, sw_Br = []\<rparr> = Inr ''goto bb_12''
   \<and> IrSwitch_String [] (\<lambda>x :: nat. []) (\<lambda>a. \<lparr>blk_Id = of_nat a\<rparr>)
      \<lparr>sw_V = Rz, sw_Ln = Some 9, sw_Br = [(5, Some 5), (1, Some 1)]\<rparr>
     = Inr (''switch $0 {'' @ [CHR 0x0A] @ ''  1 => bb_1,'' @ [CHR 0x0A] @ ''  5 => bb_5,''
            @ [CHR 0x0A] @ ''  _ => bb_9,'' @ [CHR 0x0A] @ ''}'')"
proof -
  let ?h = "\<lambda>a. \<lparr>blk_Id = of_nat a\<rparr>"
  let ?s1 = "\<lparr>sw_V = Rz, sw_Ln = Some 12, sw_Br = []\<rparr>"
  let ?s2 = "\<lparr>sw_V = Rz, sw_Ln = Some 9, sw_Br = [(5 :: int64, Some 5), (1, Some 1)]\<rparr>"
  have rz: "Reg_String [] (\<lambda>x :: nat. []) Rz = Inr ''$0''"
    by (simp add: Reg_String_def kind_Rz Ptr_Rz reg_consts)
  show ?thesis
    using switch_string[of ?s1 12 "[]" "\<lambda>x :: nat. []" ?h] switch_string[of ?s2 9 "[]" "\<lambda>x :: nat. []" ?h]
    by (simp add: rz fmt_s_def fmt_int_def digit_char_def switch_case_line_def
        switch_default_line_def)
qed

section \<open>Phi nodes\<close>

lemma phi_iface:
  "sort_iface (\<lambda>s. zip (ps_k s) (ps_v s)) (\<lambda>e. sint (fst e))
     (\<lambda>s. length (ps_k s) = length (ps_v s)) PhiSorter_Less PhiSorter_Swap"
  unfolding sort_iface_def PhiSorter_Less_def PhiSorter_Swap_def
  by (simp add: zip_update)

lemma phi_dump_ok:
  "None \<notin> fst ` set V \<Longrightarrow>
   phi_dump h V k v = Inr (k @ map (phi_key h) V, v @ map snd V)"
proof (induction V arbitrary: k v)
  case Nil
  then show ?case by simp
next
  case (Cons e V)
  obtain b r where e: "e = (b, r)" by (cases e)
  from Cons.prems e obtain a where a: "b = Some a" by (cases b) auto
  have "None \<notin> fst ` set V" using Cons.prems by auto
  from Cons.IH[OF this] show ?case
    by (simp add: e a block_Id_def phi_key_def)
qed

lemma zip_map_same: "zip (map f xs) (map g xs) = map (\<lambda>x. (f x, g x)) xs"
  by (induction xs) simp_all

lemma perm_of_map:
  "mset ys = mset (map g xs) \<Longrightarrow> \<exists>es. mset es = mset xs \<and> map g es = ys"
proof (induction ys arbitrary: xs)
  case Nil
  then show ?case by simp
next
  case (Cons y ys)
  have "y \<in> set (map g xs)"
    using Cons.prems by (metis list.set_intros(1) mset_eq_setD)
  then obtain x where x: "x \<in> set xs" "g x = y" by auto
  have xs: "mset xs = add_mset x (mset (remove1 x xs))" using x(1) by simp
  have "add_mset y (mset ys) = image_mset g (mset xs)" using Cons.prems by simp
  also have "\<dots> = add_mset y (image_mset g (mset (remove1 x xs)))"
    by (subst xs) (simp add: x(2))
  finally have "mset ys = mset (map g (remove1 x xs))" by simp
  from Cons.IH[OF this] obtain es
    where es: "mset es = mset (remove1 x xs)" "map g es = ys" by blast
  have "mset (x # es) = add_mset x (mset (remove1 x xs))" by (simp only: mset.simps es(1))
  then have "mset (x # es) = mset xs" by (simp only: xs)
  moreover have "map g (x # es) = y # ys" by (simp add: es(2) x(2))
  ultimately have "mset (x # es) = mset xs \<and> map g (x # es) = y # ys" by (rule conjI)
  then show ?case by (rule exI)
qed

lemma phi_usages_sorted:
  assumes nn: "None \<notin> fst ` set (phi_V phi)"
  shows "\<exists>es. mset es = mset (phi_V phi) \<and> sorted (map (\<lambda>e. sint (phi_key h e)) es)
           \<and> IrPhi_Usages h phi = Inr (map snd es)"
proof -
  let ?V = "phi_V phi"
  let ?ks = "map (phi_key h) ?V" and ?vs = "map snd ?V"
  let ?s = "\<lparr>ps_k = ?ks, ps_v = ?vs\<rparr>"
  let ?s' = "sort_Sort PhiSorter_Len PhiSorter_Less PhiSorter_Swap ?s"
  have s': "?s' = insertionSort PhiSorter_Less PhiSorter_Swap ?s 0 (length ?V)"
    by (simp add: sort_Sort_def PhiSorter_Len_def)
  have I: "length (ps_k ?s) = length (ps_v ?s)" by simp
  have n: "length ?V \<le> length (zip (ps_k ?s) (ps_v ?s))" by simp
  note r = insertionSort_result[OF phi_iface I n, folded s']
  let ?z = "zip (ps_k ?s') (ps_v ?s')"
  have lz: "length ?z = length ?V" using r(2) by simp
  have mz: "mset ?z = mset (zip ?ks ?vs)" using r(3) lz by simp
  have sz: "sorted (map (\<lambda>e. sint (fst e)) ?z)" using r(5) lz by simp
  have vz: "ps_v ?s' = map snd ?z" using r(1) by simp
  have zV: "zip ?ks ?vs = map (\<lambda>e. (phi_key h e, snd e)) ?V"
    by (rule zip_map_same)
  have "\<exists>es. mset es = mset ?V \<and> map (\<lambda>e. (phi_key h e, snd e)) es = ?z"
    using mz unfolding zV by (rule perm_of_map)
  then obtain es where es: "mset es = mset ?V" "map (\<lambda>e. (phi_key h e, snd e)) es = ?z" by blast
  have "map (\<lambda>e. sint (phi_key h e)) es = map (\<lambda>e. sint (fst e)) ?z"
    unfolding es(2)[symmetric] by (simp add: comp_def)
  then have "sorted (map (\<lambda>e. sint (phi_key h e)) es)" using sz by simp
  moreover have "map snd es = map snd ?z" unfolding es(2)[symmetric] by (simp add: comp_def)
  ultimately show ?thesis
    using es(1) vz by (auto simp add: IrPhi_Usages_def phi_dump_ok[OF nn])
qed

lemma phi_keys_perm:
  assumes d: "distinct (map fst V)" and inj: "inj_on (\<lambda>b. blk_Id (h (the b))) (fst ` set V)"
    and m: "mset es = mset V"
  shows "distinct es" "inj_on (\<lambda>e. sint (phi_key h e)) (set es)"
proof -
  have "distinct (map (\<lambda>b. blk_Id (h (the b))) (map fst V))"
    using d inj by (subst distinct_map) simp
  moreover have "inj_on sint (set (map (\<lambda>b. blk_Id (h (the b))) (map fst V)))"
    by (rule inj_on_subset[OF sint_inj]) simp
  ultimately have "distinct (map sint (map (\<lambda>b. blk_Id (h (the b))) (map fst V)))"
    by (subst distinct_map) simp
  then have "distinct (map (\<lambda>e. sint (phi_key h e)) V)"
    by (simp add: comp_def phi_key_def)
  moreover have "mset (map (\<lambda>e. sint (phi_key h e)) es) = mset (map (\<lambda>e. sint (phi_key h e)) V)"
    using m by (metis mset_map)
  ultimately have "distinct (map (\<lambda>e. sint (phi_key h e)) es)"
    using mset_eq_imp_distinct_iff by blast
  then show "distinct es" "inj_on (\<lambda>e. sint (phi_key h e)) (set es)"
    by (simp_all add: distinct_map)
qed

subsection \<open>Claim C3\<close>

text \<open>
  C3: usages and definitions of a phi node. The predecessor map is a list of entries, in
  whatever order \<^verbatim>\<open>range\<close> visits them, and its keys are blocks, not nil. \<^verbatim>\<open>Usages()\<close> returns
  exactly one source-register location per entry of the map, in ascending order of the
  signed identifier of the predecessor block. When the keys are distinct pointers (it is a
  map) and the identifiers identify the blocks (no two blocks of the map share one), the
  list is the same for every order \<open>v'\<close> in which the map hands out its entries, so it
  does not depend on insertion order. \<^verbatim>\<open>Definations()\<close> returns exactly the location of the
  merge target, the field \<^verbatim>\<open>R\<close> of the node.
\<close>

theorem phi_usages_definations:
  assumes "None \<notin> fst ` set (phi_V phi)"
  shows "(\<exists>es. mset es = mset (phi_V phi)
              \<and> sorted (map (\<lambda>(b, r). sint (blk_Id (h (the b)))) es)
              \<and> IrPhi_Usages h phi = Inr (map snd es))
         \<and> (distinct (map fst (phi_V phi))
              \<and> inj_on (\<lambda>b. blk_Id (h (the b))) (fst ` set (phi_V phi)) \<longrightarrow>
            (\<forall>v'. mset v' = mset (phi_V phi) \<longrightarrow>
               IrPhi_Usages h (phi\<lparr>phi_V := v'\<rparr>) =
                 Inr (map snd (sort_key (\<lambda>(b, r). sint (blk_Id (h (the b)))) (phi_V phi)))))
         \<and> IrPhi_Definations self = [RegField self ''R'']"
proof (intro conjI impI allI)
  have k: "(\<lambda>(b, r). sint (blk_Id (h (the b)))) = (\<lambda>e :: bbptr \<times> regptr. sint (phi_key h e))"
    by (simp add: fun_eq_iff phi_key_def)
  show "\<exists>es. mset es = mset (phi_V phi)
              \<and> sorted (map (\<lambda>(b, r). sint (blk_Id (h (the b)))) es)
              \<and> IrPhi_Usages h phi = Inr (map snd es)"
    unfolding k using assms by (rule phi_usages_sorted)
  show "IrPhi_Definations self = [RegField self ''R'']"
    by (simp add: IrPhi_Definations_def)
  fix v'
  assume di: "distinct (map fst (phi_V phi))
      \<and> inj_on (\<lambda>b. blk_Id (h (the b))) (fst ` set (phi_V phi))"
    and v': "mset v' = mset (phi_V phi)"
  let ?phi' = "phi\<lparr>phi_V := v'\<rparr>"
  have "set v' = set (phi_V phi)" using v' by (rule mset_eq_setD)
  then have nn: "None \<notin> fst ` set (phi_V ?phi')" using assms by simp
  from phi_usages_sorted[OF nn, of h] obtain es
    where es: "mset es = mset v'" "sorted (map (\<lambda>e. sint (phi_key h e)) es)"
      "IrPhi_Usages h ?phi' = Inr (map snd es)" by auto
  have m: "mset es = mset (phi_V phi)" using es(1) v' by simp
  have "es = sort_key (\<lambda>e. sint (phi_key h e)) (phi_V phi)"
    using m es(2) phi_keys_perm[OF conjunct1[OF di] conjunct2[OF di] m]
    by (intro sorted_perm_unique[where f = "\<lambda>e. sint (phi_key h e)"]) simp_all
  then show "IrPhi_Usages h ?phi' =
      Inr (map snd (sort_key (\<lambda>(b, r). sint (blk_Id (h (the b)))) (phi_V phi)))"
    by (simp add: es(3) k)
qed

theorem phi_usages_definations_witness:
  "None \<notin> fst ` set [(Some 3, RegCell 30), (Some 1, RegCell 10), (Some (2 :: nat), RegCell 20)]
   \<and> distinct (map fst [(Some 3, RegCell 30), (Some 1, RegCell 10), (Some (2 :: nat), RegCell 20)])
   \<and> inj_on (\<lambda>b. blk_Id (\<lparr>blk_Id = of_nat (the b)\<rparr>)) {Some 3, Some 1, Some (2 :: nat)}
   \<and> IrPhi_Usages (\<lambda>a. \<lparr>blk_Id = of_nat a\<rparr>)
        \<lparr>phi_R = Rz, phi_V = [(Some 3, RegCell 30), (Some 1, RegCell 10), (Some 2, RegCell 20)]\<rparr>
       = Inr [RegCell 10, RegCell 20, RegCell 30]
   \<and> IrPhi_Usages (\<lambda>a. \<lparr>blk_Id = of_nat a\<rparr>)
        \<lparr>phi_R = Rz, phi_V = [(Some 2, RegCell 20), (Some 3, RegCell 30), (Some 1, RegCell 10)]\<rparr>
       = Inr [RegCell 10, RegCell 20, RegCell 30]
   \<and> IrPhi_Definations 4 = [RegField 4 ''R'']"
proof -
  let ?h = "\<lambda>a. \<lparr>blk_Id = of_nat a\<rparr>"
  let ?V = "[(Some 3, RegCell 30), (Some 1, RegCell 10), (Some (2 :: nat), RegCell 20)]"
  let ?V' = "[(Some 2, RegCell 20), (Some 3, RegCell 30), (Some (1 :: nat), RegCell 10)]"
  let ?phi = "\<lparr>phi_R = Rz, phi_V = ?V\<rparr>"
  have nn: "None \<notin> fst ` set (phi_V ?phi)" by simp
  have d: "distinct (map fst (phi_V ?phi))" by simp
  have inj: "inj_on (\<lambda>b. blk_Id (?h (the b))) (fst ` set (phi_V ?phi))" by (simp add: inj_on_def)
  have m1: "mset ?V = mset (phi_V ?phi)" by simp
  have m2: "mset ?V' = mset (phi_V ?phi)" by simp
  note t = phi_usages_definations[OF nn, of ?h 4]
  from t have all: "\<forall>v'. mset v' = mset (phi_V ?phi) \<longrightarrow>
       IrPhi_Usages ?h (?phi\<lparr>phi_V := v'\<rparr>) =
         Inr (map snd (sort_key (\<lambda>(b, r). sint (blk_Id (?h (the b)))) (phi_V ?phi)))"
    using d inj by blast
  have u1: "IrPhi_Usages ?h ?phi = Inr [RegCell 10, RegCell 20, RegCell 30]"
    using all[rule_format, OF m1] by simp
  have u2: "IrPhi_Usages ?h \<lparr>phi_R = Rz, phi_V = ?V'\<rparr> = Inr [RegCell 10, RegCell 20, RegCell 30]"
    using all[rule_format, OF m2] by simp
  have d4: "IrPhi_Definations 4 = [RegField 4 ''R'']" using t by blast
  show ?thesis using nn d inj u1 u2 d4 by simp
qed

section \<open>Copies and calls\<close>

subsection \<open>Claim C10\<close>

text \<open>
  C10: \<^verbatim>\<open>IrCopy(r, v)\<close> allocates a binary expression with operator add, first operand \<open>v\<close>
  and second operand the non-pointer zero register \<^verbatim>\<open>Rz\<close>, never \<^verbatim>\<open>Pn\<close>, for all registers
  \<open>r\<close> and \<open>v\<close>, pointer or not; the objects already on the heap are untouched. Its
  \<^verbatim>\<open>Usages()\<close> are exactly the locations of the two operands, the one holding \<open>v\<close> first and
  the one holding \<^verbatim>\<open>Rz\<close> second, and its \<^verbatim>\<open>Definations()\<close> is exactly the location holding
  \<open>r\<close>.
\<close>

theorem IrCopy_adds_zero:
  "snd (IrCopy r v heap) ! fst (IrCopy r v heap) = \<lparr>bin_R = r, bin_X = v, bin_Y = Rz, bin_Op = IrOpAdd\<rparr>
   \<and> fst (IrCopy r v heap) < length (snd (IrCopy r v heap))
   \<and> take (length heap) (snd (IrCopy r v heap)) = heap
   \<and> \<not> Ptr (bin_Y (snd (IrCopy r v heap) ! fst (IrCopy r v heap)))
   \<and> bin_Y (snd (IrCopy r v heap) ! fst (IrCopy r v heap)) \<noteq> Pn
   \<and> IrBinaryExpr_Usages (fst (IrCopy r v heap))
       = [RegField (fst (IrCopy r v heap)) ''X'', RegField (fst (IrCopy r v heap)) ''Y'']
   \<and> map (IrBinaryExpr_load (snd (IrCopy r v heap))) (IrBinaryExpr_Usages (fst (IrCopy r v heap)))
       = [Some v, Some Rz]
   \<and> IrBinaryExpr_Definations (fst (IrCopy r v heap)) = [RegField (fst (IrCopy r v heap)) ''R'']
   \<and> map (IrBinaryExpr_load (snd (IrCopy r v heap))) (IrBinaryExpr_Definations (fst (IrCopy r v heap)))
       = [Some r]"
proof -
  have "Rz \<noteq> Pn" using Ptr_Rz Ptr_Pn by auto
  then show ?thesis
    by (simp add: IrCopy_def new_object_def IrBinaryExpr_Usages_def IrBinaryExpr_Definations_def
        IrBinaryExpr_load_def Ptr_Rz)
qed

subsection \<open>Claim C4\<close>

lemma Reg_String_error:
  "Reg_String regs names r = Inl e \<Longrightarrow>
     \<exists>s. e = Panic (''invalid arch-specific register index: '' @ s)"
  by (auto simp add: Reg_String_def Let_def split: if_splits)

lemma regs_String_error:
  "regs_String regs names rs = Inl e \<Longrightarrow>
     \<exists>s. e = Panic (''invalid arch-specific register index: '' @ s)"
proof (induction rs)
  case Nil
  then show ?case by simp
next
  case (Cons r rs)
  then show ?case
    by (auto split: sum.splits dest: Reg_String_error)
qed

lemma regs_String_not_receiver:
  "regs_String regs names rs \<noteq> Inl (Panic ''invalid receiver value'')"
  using regs_String_error[of regs names rs "Panic ''invalid receiver value''"] by auto

text \<open>
  C4, as stated: building a dynamic-dispatch call without a receiver, or a native or
  managed call with one, fails at construction time. The source has no constructor for
  \<^verbatim>\<open>IrCall\<close>: a node is a struct literal, and both ill-formed nodes exist and answer
  \<^verbatim>\<open>Usages()\<close> without any failure.
\<close>

theorem call_receiver_counterexample:
  "IrCall_Usages 7 \<lparr>call_Fn = Some \<lparr>ch_Type = ICall, ch_Slot = 0\<rparr>, call_Rx = None,
                     call_In = [Rz], call_Out = []\<rparr> = [RegIndex 7 ''In'' 0]
   \<and> IrCall_Usages 7 \<lparr>call_Fn = Some \<lparr>ch_Type = CCall, ch_Slot = 0\<rparr>, call_Rx = Some 3,
                     call_In = [Rz], call_Out = []\<rparr>
       = [RegField 3 ''T'', RegField 3 ''V'', RegIndex 7 ''In'' 0]"
  by (simp add: IrCall_Usages_def regsliceref_def)

text \<open>
  C4, amended: the receiver invariant is checked when the node is rendered. For a call with
  a call handle, \<^verbatim>\<open>String()\<close> panics with \<^verbatim>\<open>invalid receiver value\<close> when the call is an
  interface call without a receiver, and when it is any other call with a receiver; it
  never panics with that message when the receiver is present exactly for an interface
  call.
\<close>

theorem call_receiver_checked_by_String:
  assumes "call_Fn c = Some fn"
  shows "(ch_Type fn = ICall \<and> call_Rx c = None \<longrightarrow>
            IrCall_String regs names fnstr rxs c = Inl (Panic ''invalid receiver value''))
       \<and> (ch_Type fn \<noteq> ICall \<and> call_Rx c \<noteq> None \<longrightarrow>
            IrCall_String regs names fnstr rxs c = Inl (Panic ''invalid receiver value''))
       \<and> ((call_Rx c = None) \<noteq> (ch_Type fn = ICall) \<longrightarrow>
            IrCall_String regs names fnstr rxs c \<noteq> Inl (Panic ''invalid receiver value''))"
proof (intro conjI impI)
  assume "ch_Type fn = ICall \<and> call_Rx c = None"
  then show "IrCall_String regs names fnstr rxs c = Inl (Panic ''invalid receiver value'')"
    using assms by (simp add: IrCall_String_def)
next
  assume "ch_Type fn \<noteq> ICall \<and> call_Rx c \<noteq> None"
  then show "IrCall_String regs names fnstr rxs c = Inl (Panic ''invalid receiver value'')"
    using assms by (simp add: IrCall_String_def)
next
  assume ok: "(call_Rx c = None) \<noteq> (ch_Type fn = ICall)"
  show "IrCall_String regs names fnstr rxs c \<noteq> Inl (Panic ''invalid receiver value'')"
  proof
    assume p: "IrCall_String regs names fnstr rxs c = Inl (Panic ''invalid receiver value'')"
    have i: "regs_String regs names (call_In c) \<noteq> Inl (Panic ''invalid receiver value'')"
      and out: "regs_String regs names (call_Out c) \<noteq> Inl (Panic ''invalid receiver value'')"
      by (rule regs_String_not_receiver)+
    from p assms ok i out show False
      by (cases "ch_Type fn")
         (auto simp add: IrCall_String_def Let_def split: sum.splits if_splits)
  qed
qed

theorem call_receiver_checked_by_String_witness:
  "IrCall_String [] (\<lambda>x :: nat. []) (\<lambda>fn. ''f'') (\<lambda>a. \<lparr>rx_T = Rz, rx_V = Pn\<rparr>)
      \<lparr>call_Fn = Some \<lparr>ch_Type = ICall, ch_Slot = 3\<rparr>, call_Rx = None, call_In = [], call_Out = []\<rparr>
     = Inl (Panic ''invalid receiver value'')
   \<and> IrCall_String [] (\<lambda>x :: nat. []) (\<lambda>fn. ''f'') (\<lambda>a. \<lparr>rx_T = Rz, rx_V = Pn\<rparr>)
      \<lparr>call_Fn = Some \<lparr>ch_Type = CCall, ch_Slot = 0\<rparr>, call_Rx = Some 1, call_In = [], call_Out = []\<rparr>
     = Inl (Panic ''invalid receiver value'')
   \<and> IrCall_String [] (\<lambda>x :: nat. []) (\<lambda>fn. ''f'') (\<lambda>a. \<lparr>rx_T = Rz, rx_V = Pn\<rparr>)
      \<lparr>call_Fn = Some \<lparr>ch_Type = ICall, ch_Slot = 3\<rparr>, call_Rx = Some 1, call_In = [], call_Out = []\<rparr>
     \<noteq> Inl (Panic ''invalid receiver value'')"
proof -
  let ?c1 = "\<lparr>call_Fn = Some \<lparr>ch_Type = ICall, ch_Slot = 3\<rparr>, call_Rx = None, call_In = [], call_Out = []\<rparr>"
  let ?c2 = "\<lparr>call_Fn = Some \<lparr>ch_Type = CCall, ch_Slot = 0\<rparr>, call_Rx = Some 1, call_In = [], call_Out = []\<rparr>"
  let ?c3 = "\<lparr>call_Fn = Some \<lparr>ch_Type = ICall, ch_Slot = 3\<rparr>, call_Rx = Some 1, call_In = [], call_Out = []\<rparr>"
  have f1: "call_Fn ?c1 = Some \<lparr>ch_Type = ICall, ch_Slot = 3\<rparr>" by simp
  have f2: "call_Fn ?c2 = Some \<lparr>ch_Type = CCall, ch_Slot = 0\<rparr>" by simp
  have f3: "call_Fn ?c3 = Some \<lparr>ch_Type = ICall, ch_Slot = 3\<rparr>" by simp
  show ?thesis
    using call_receiver_checked_by_String[OF f1, of "[]" "\<lambda>x :: nat. []" "\<lambda>fn. ''f''" "\<lambda>a. \<lparr>rx_T = Rz, rx_V = Pn\<rparr>"]
      call_receiver_checked_by_String[OF f2, of "[]" "\<lambda>x :: nat. []" "\<lambda>fn. ''f''" "\<lambda>a. \<lparr>rx_T = Rz, rx_V = Pn\<rparr>"]
      call_receiver_checked_by_String[OF f3, of "[]" "\<lambda>x :: nat. []" "\<lambda>fn. ''f''" "\<lambda>a. \<lparr>rx_T = Rz, rx_V = Pn\<rparr>"]
    by simp
qed

end
